theory Spec2Isabelle
  imports Complex_Main "HOL-Library.Word" "HOL-Library.Signed_Division"
begin

section \<open>Execution segments of k6 (package lib)\<close>

text \<open>
  An execution segment is a half-open interval \<open>(from, to]\<close> of the unit interval, held
  as three arbitrary-precision rationals (Go's \<open>*big.Rat\<close>).  A \<open>*big.Rat\<close> is modelled by
  its value, a \<open>rat\<close>; a \<open>*ExecutionSegment\<close> that may be \<open>nil\<close> is an
  \<open>ExecutionSegment option\<close>, \<open>None\<close> being the nil pointer.  An \<open>int64\<close> is a
  \<open>64 word\<close> read through \<open>sint\<close>.  The pointer fields of a segment are taken to be
  non-nil, as they are in every segment the package builds.
\<close>

subsection \<open>Data\<close>

record ExecutionSegment =
  es_from :: rat
  es_to :: rat
  es_length :: rat

text \<open>
  The errors of the package are built with \<open>fmt.Errorf\<close>; each message is one constructor
  here, carrying the values the message prints.
\<close>

datatype error =
    StartBelowZero rat
  | StartNotBeforeEnd rat rat
  | EndAboveOne rat
  | NotAPercentage string
  | NotARational string
  | TooFewParts "64 word"
  | BoundaryMismatch rat rat

text \<open>
  The comment on the struct: \<open>0 <= from < to <= 1\<close>, and \<open>length\<close> "equals to-from".
\<close>

definition valid_segment :: "ExecutionSegment \<Rightarrow> bool" where
  "valid_segment s =
     (0 \<le> es_from s \<and> es_from s < es_to s \<and> es_to s \<le> 1 \<and>
      es_length s = es_to s - es_from s)"

definition valid_or_absent :: "ExecutionSegment option \<Rightarrow> bool" where
  "valid_or_absent es = (case es of None \<Rightarrow> True | Some s \<Rightarrow> valid_segment s)"

subsection \<open>NewExecutionSegment\<close>

definition NewExecutionSegment :: "rat \<Rightarrow> rat \<Rightarrow> error + ExecutionSegment" where
  "NewExecutionSegment from to =
     (if from < 0 then Inl (StartBelowZero from)
      else if from \<ge> to then Inl (StartNotBeforeEnd from to)
      else if to > 1 then Inl (EndAboveOne to)
      else Inr \<lparr>es_from = from, es_to = to, es_length = to - from\<rparr>)"

subsection \<open>Text: the helpers of package strings\<close>

text \<open>
  Go strings are byte sequences, and so is \<open>string\<close>.  The three helpers are used with
  the ASCII bytes \<open>%\<close> and \<open>:\<close> only, which never occur inside a multi-byte UTF-8
  sequence, so reading bytes and reading runes agree.
\<close>

definition HasSuffix :: "string \<Rightarrow> string \<Rightarrow> bool" where
  "HasSuffix s suffix =
     (length suffix \<le> length s \<and> drop (length s - length suffix) s = suffix)"

definition TrimSuffix :: "string \<Rightarrow> string \<Rightarrow> string" where
  "TrimSuffix s suffix =
     (if HasSuffix s suffix then take (length s - length suffix) s else s)"

definition ContainsRune :: "string \<Rightarrow> char \<Rightarrow> bool" where
  "ContainsRune s r = (r \<in> set s)"

text \<open>
  \<open>strings.SplitN(s, sep, 2)\<close> for a one-byte separator that occurs in \<open>s\<close>: the text
  before the first occurrence, and everything after it.
\<close>

definition SplitN2 :: "string \<Rightarrow> char \<Rightarrow> string \<times> string" where
  "SplitN2 s sep = (takeWhile (\<lambda>c. c \<noteq> sep) s, drop 1 (dropWhile (\<lambda>c. c \<noteq> sep) s))"

subsection \<open>stringToRat and UnmarshalText\<close>

text \<open>
  \<open>stringToRat\<close> hands the text to \<open>big.Int.SetString(_, 10)\<close> and \<open>big.Rat.SetString\<close>
  of the Go standard library.  Both are parameters of the model: \<open>intSetString\<close> and
  \<open>ratSetString\<close> return \<open>None\<close> where the library reports \<open>ok = false\<close>.
\<close>

definition stringToRat ::
  "(string \<Rightarrow> int option) \<Rightarrow> (string \<Rightarrow> rat option) \<Rightarrow> string \<Rightarrow> error + rat" where
  "stringToRat intSetString ratSetString s =
     (if HasSuffix s ''%'' then
        (case intSetString (TrimSuffix s ''%'') of
           None \<Rightarrow> Inl (NotAPercentage s)
         | Some num \<Rightarrow> Inr (Fract num 100))
      else
        (case ratSetString s of
           None \<Rightarrow> Inl (NotARational s)
         | Some rat \<Rightarrow> Inr rat))"

text \<open>
  \<open>UnmarshalText\<close> writes through its receiver only in its last statement,
  \<open>*es = *segment\<close>.  The model takes the struct the receiver points to and returns the
  struct after the call together with the returned error (\<open>None\<close> for \<open>nil\<close>).  The
  receiver itself is taken to be non-nil; \<open>text\<close> is the byte slice read as a string.
\<close>

definition UnmarshalText ::
  "(string \<Rightarrow> int option) \<Rightarrow> (string \<Rightarrow> rat option) \<Rightarrow>
   ExecutionSegment \<Rightarrow> string \<Rightarrow> ExecutionSegment \<times> error option" where
  "UnmarshalText intSetString ratSetString es text =
     (case (if ContainsRune text CHR '':'' then
              (let fromToStr = SplitN2 text CHR '':'' in
               case stringToRat intSetString ratSetString (fst fromToStr) of
                 Inl err \<Rightarrow> Inl err
               | Inr from \<Rightarrow> Inr (from, snd fromToStr))
            else Inr (0, text)) of
        Inl err \<Rightarrow> (es, Some err)
      | Inr (from, toStr) \<Rightarrow>
          (case stringToRat intSetString ratSetString toStr of
             Inl err \<Rightarrow> (es, Some err)
           | Inr to \<Rightarrow>
               (case NewExecutionSegment from to of
                  Inl err \<Rightarrow> (es, Some err)
                | Inr segment \<Rightarrow> (segment, None))))"

subsection \<open>String and MarshalText\<close>

text \<open>
  \<open>big.Rat.RatString\<close> prints \<open>a/b\<close> in lowest terms with a positive denominator, or
  \<open>a\<close> alone when the denominator is 1; both numbers are printed by \<open>big.Int.String\<close>, in
  decimal with a leading \<open>-\<close> for a negative one.
\<close>

definition digit_char :: "nat \<Rightarrow> char" where
  "digit_char d = ''0123456789'' ! d"

fun nat_text :: "nat \<Rightarrow> string" where
  "nat_text n =
     (if n < 10 then [digit_char n] else nat_text (n div 10) @ [digit_char (n mod 10)])"

declare nat_text.simps [simp del]

definition IntString :: "int \<Rightarrow> string" where
  "IntString i = (if i < 0 then CHR ''-'' # nat_text (nat (- i)) else nat_text (nat i))"

definition RatString :: "rat \<Rightarrow> string" where
  "RatString x =
     (case quotient_of x of
        (a, b) \<Rightarrow> if b = 1 then IntString a else IntString a @ ''/'' @ IntString b)"

definition String :: "ExecutionSegment option \<Rightarrow> string" where
  "String es =
     (case es of
        None \<Rightarrow> ''0:1''
      | Some s \<Rightarrow> RatString (es_from s) @ '':'' @ RatString (es_to s))"

text \<open>
  \<open>MarshalText\<close> returns a byte slice and an error; the slice is \<open>None\<close> when it is
  \<open>nil\<close>.
\<close>

definition MarshalText :: "ExecutionSegment option \<Rightarrow> string option \<times> error option" where
  "MarshalText es =
     (case es of
        None \<Rightarrow> (None, None)
      | Some s \<Rightarrow> (Some (String es), None))"

subsection \<open>Split\<close>

text \<open>
  The loop of \<open>Split\<close>, by the number of iterations still to run.  It carries the
  running \<open>from\<close> and the result slice, and stops at the first segment that
  \<open>NewExecutionSegment\<close> refuses.
\<close>

fun Split_loop ::
  "nat \<Rightarrow> rat \<Rightarrow> rat \<Rightarrow> ExecutionSegment list \<Rightarrow> error + (ExecutionSegment list \<times> rat)" where
  "Split_loop 0 from increment results = Inr (results, from)"
| "Split_loop (Suc k) from increment results =
     (let segmentTo = from + increment in
      case NewExecutionSegment from segmentTo of
        Inl err \<Rightarrow> Inl err
      | Inr segment \<Rightarrow> Split_loop k segmentTo increment (results @ [segment]))"

text \<open>
  \<open>increment\<close> is \<open>to - from\<close> with its denominator multiplied by \<open>numParts\<close> in place;
  as a value, \<open>(to - from) / numParts\<close>.
\<close>

definition Split :: "ExecutionSegment option \<Rightarrow> 64 word \<Rightarrow> error + ExecutionSegment list" where
  "Split es numParts =
     (if sint numParts < 1 then Inl (TooFewParts numParts)
      else
        (let (from, to) = (case es of None \<Rightarrow> (0, 1) | Some s \<Rightarrow> (es_from s, es_to s));
             increment = (to - from) / of_int (sint numParts)
         in case Split_loop (nat (sint numParts)) from increment [] of
              Inl err \<Rightarrow> Inl err
            | Inr (results, from') \<Rightarrow>
                if from' \<noteq> to then Inl (BoundaryMismatch from' to) else Inr results))"

subsection \<open>Equal and SubSegment\<close>

text \<open>
  \<open>Equal\<close> first compares the two pointers; equal pointers hold equal bounds, so the
  comparison of the bounds below gives the same answer there.
\<close>

definition Equal :: "ExecutionSegment option \<Rightarrow> ExecutionSegment option \<Rightarrow> bool" where
  "Equal es other =
     (let (thisFrom, thisTo) = (case es of None \<Rightarrow> (0, 1) | Some s \<Rightarrow> (es_from s, es_to s));
          (otherFrom, otherTo) =
            (case other of None \<Rightarrow> (0, 1) | Some s \<Rightarrow> (es_from s, es_to s))
      in thisFrom = otherFrom \<and> thisTo = otherTo)"

definition SubSegment ::
  "ExecutionSegment option \<Rightarrow> ExecutionSegment option \<Rightarrow> ExecutionSegment option" where
  "SubSegment es child =
     (case child of
        None \<Rightarrow> es
      | Some c \<Rightarrow>
          (let (parentFrom, parentLength) =
                 (case es of None \<Rightarrow> (0, 1) | Some p \<Rightarrow> (es_from p, es_length p));
               resultFrom = parentLength * es_from c + parentFrom;
               resultLength = parentLength * es_length c
           in Some \<lparr>es_from = resultFrom, es_to = resultFrom + resultLength,
                     es_length = resultLength\<rparr>))"

subsection \<open>roundUp and Scale\<close>

text \<open>
  \<open>big.Int.QuoRem\<close> is truncated division: the quotient is rounded toward zero and the
  remainder has the sign of the numerator.  On \<open>int\<close> these are \<open>sdiv\<close> and \<open>smod\<close>.
\<close>

definition roundUp :: "rat \<Rightarrow> int" where
  "roundUp rat =
     (let (num, denom) = quotient_of rat;
          quo = num sdiv denom;
          rem = num smod denom
      in if rem * 2 \<ge> denom then quo + 1 else quo)"

text \<open>
  \<open>big.Int.Int64\<close> takes the low 64 bits of the magnitude as an \<open>int64\<close> and negates
  them for a negative number.
\<close>

definition Int64 :: "int \<Rightarrow> 64 word" where
  "Int64 x = (if x < 0 then - word_of_int \<bar>x\<bar> else word_of_int \<bar>x\<bar>)"

definition Scale :: "ExecutionSegment option \<Rightarrow> 64 word \<Rightarrow> 64 word" where
  "Scale es value =
     (case es of
        None \<Rightarrow> value
      | Some s \<Rightarrow>
          (let toValue = of_int (sint value) * es_to s;
               fromValue = of_int (sint value) * es_from s;
               toValue' = toValue - of_int (roundUp fromValue)
           in Int64 (roundUp toValue')))"

subsection \<open>InPlaceScaleRat and CopyScaleRat\<close>

text \<open>
  Both take a \<open>*big.Rat\<close> and return one.  The model returns the content of the
  argument after the call, then the value returned: \<open>InPlaceScaleRat\<close> multiplies the
  argument itself, \<open>CopyScaleRat\<close> leaves it alone.
\<close>

definition InPlaceScaleRat :: "ExecutionSegment option \<Rightarrow> rat \<Rightarrow> rat \<times> rat" where
  "InPlaceScaleRat es value =
     (case es of
        None \<Rightarrow> (value, value)
      | Some s \<Rightarrow> (value * es_length s, value * es_length s))"

definition CopyScaleRat :: "ExecutionSegment option \<Rightarrow> rat \<Rightarrow> rat \<times> rat" where
  "CopyScaleRat es value =
     (case es of
        None \<Rightarrow> (value, value)
      | Some s \<Rightarrow> (value, value * es_length s))"

text \<open>
  \<open>FloatLength\<close> converts the length to a \<open>float64\<close> for display; it takes no part in
  the arithmetic of segments and is not modelled.
\<close>

subsection \<open>Readers for concrete inputs\<close>

text \<open>
  Two readers to run the parsing functions on concrete texts: \<open>decimal_int\<close> reads an
  optionally signed decimal integer, as \<open>big.Int.SetString(_, 10)\<close> does, and
  \<open>fraction_rat\<close> reads such an integer or a fraction \<open>a/b\<close> of one by an unsigned
  decimal, which are the two notations \<open>RatString\<close> prints.  Both reject the empty text,
  as the library does.
\<close>

fun read_digits :: "string \<Rightarrow> nat \<Rightarrow> nat option" where
  "read_digits [] acc = Some acc"
| "read_digits (c # cs) acc =
     (let d = (of_char c :: nat)
      in if 48 \<le> d \<and> d \<le> 57 then read_digits cs (10 * acc + (d - 48)) else None)"

definition decimal_nat :: "string \<Rightarrow> nat option" where
  "decimal_nat s = (if s = [] then None else read_digits s 0)"

definition decimal_int :: "string \<Rightarrow> int option" where
  "decimal_int s =
     (case s of
        [] \<Rightarrow> None
      | c # cs \<Rightarrow>
          if c = CHR ''-'' then map_option (\<lambda>n. - int n) (decimal_nat cs)
          else if c = CHR ''+'' then map_option int (decimal_nat cs)
          else map_option int (decimal_nat s))"

definition fraction_rat :: "string \<Rightarrow> rat option" where
  "fraction_rat s =
     (if ContainsRune s CHR ''/'' then
        (case decimal_int (fst (SplitN2 s CHR ''/'')) of
           None \<Rightarrow> None
         | Some a \<Rightarrow>
             (case decimal_nat (snd (SplitN2 s CHR ''/'')) of
                None \<Rightarrow> None
              | Some b \<Rightarrow> if b = 0 then None else Some (Fract a (int b))))
      else map_option of_int (decimal_int s))"

text \<open>The characters that \<open>RatString\<close> prints.\<close>

definition printed_chars :: "char set" where
  "printed_chars = set ''0123456789-/''"

subsection \<open>Notions of the specification\<close>

text \<open>
  A list of segments is consecutive from \<open>a\<close> to \<open>b\<close> when the first starts at \<open>a\<close>,
  each ends where the next starts, and the last ends at \<open>b\<close>.  A full partition is a
  list of valid segments that is consecutive from 0 to 1.
\<close>

fun consecutive :: "rat \<Rightarrow> ExecutionSegment list \<Rightarrow> rat \<Rightarrow> bool" where
  "consecutive a [] b = (a = b)"
| "consecutive a (s # ss) b = (es_from s = a \<and> consecutive (es_to s) ss b)"

definition full_partition :: "ExecutionSegment list \<Rightarrow> bool" where
  "full_partition ss = (list_all valid_segment ss \<and> consecutive 0 ss 1)"

text \<open>
  The bounds a segment stands for; the absent segment stands for \<open>(0, 1]\<close>, as in
  \<open>Split\<close> and \<open>Equal\<close>.
\<close>

definition bound_from :: "ExecutionSegment option \<Rightarrow> rat" where
  "bound_from es = (case es of None \<Rightarrow> 0 | Some s \<Rightarrow> es_from s)"

definition bound_to :: "ExecutionSegment option \<Rightarrow> rat" where
  "bound_to es = (case es of None \<Rightarrow> 1 | Some s \<Rightarrow> es_to s)"

text \<open>
  The \<open>i\<close>-th of the consecutive intervals of length \<open>inc\<close> that start at \<open>f\<close>.
\<close>

definition Split_part :: "rat \<Rightarrow> rat \<Rightarrow> nat \<Rightarrow> ExecutionSegment" where
  "Split_part f inc i =
     \<lparr>es_from = f + of_nat i * inc, es_to = f + of_nat (Suc i) * inc, es_length = inc\<rparr>"

text \<open>
  The rounding of the specification: to the nearest integer, a tie going away from zero.
\<close>

definition round_half_away :: "rat \<Rightarrow> int" where
  "round_half_away q = (if q < 0 then - \<lfloor>- q + 1 / 2\<rfloor> else \<lfloor>q + 1 / 2\<rfloor>)"

section \<open>Construction and validation\<close>

text \<open>
  C3: \<open>NewExecutionSegment from to\<close> returns an error exactly when \<open>from < 0\<close>, or
  \<open>from \<ge> to\<close>, or \<open>to > 1\<close>; when it does not, it returns the segment with the given
  \<open>from\<close> and \<open>to\<close> and with length \<open>to - from\<close>.
\<close>

theorem NewExecutionSegment_validation:
  "(isl (NewExecutionSegment f t) \<longleftrightarrow> f < 0 \<or> f \<ge> t \<or> t > 1) \<and>
   (\<not> isl (NewExecutionSegment f t) \<longrightarrow>
      NewExecutionSegment f t = Inr \<lparr>es_from = f, es_to = t, es_length = t - f\<rparr>)"
  by (simp add: NewExecutionSegment_def)

theorem NewExecutionSegment_validation_witness:
  "\<not> isl (NewExecutionSegment 0 1) \<and>
   NewExecutionSegment 0 1 = Inr \<lparr>es_from = 0, es_to = 1, es_length = 1\<rparr> \<and>
   isl (NewExecutionSegment (1/2) (1/4)) \<and>
   isl (NewExecutionSegment 0 (3/2))"
  using NewExecutionSegment_validation [of 0 1]
    NewExecutionSegment_validation [of "1/2" "1/4"]
    NewExecutionSegment_validation [of 0 "3/2"]
  by simp

section \<open>The invariant of segments\<close>

lemma NewExecutionSegment_Inr_valid:
  "NewExecutionSegment f t = Inr s \<Longrightarrow> valid_segment s"
  by (auto simp: NewExecutionSegment_def valid_segment_def split: if_splits)

lemma UnmarshalText_success_valid:
  "UnmarshalText intSetString ratSetString es text = (es', None) \<Longrightarrow> valid_segment es'"
  by (auto simp: UnmarshalText_def Let_def
           split: if_splits sum.splits prod.splits dest: NewExecutionSegment_Inr_valid)

text \<open>Every segment the loop of \<open>Split\<close> appends has passed \<open>NewExecutionSegment\<close>.\<close>

lemma Split_loop_valid:
  "Split_loop k f inc acc = Inr (res, f') \<Longrightarrow> list_all valid_segment acc \<Longrightarrow>
     list_all valid_segment res"
proof (induction k arbitrary: f acc)
  case 0
  then show ?case by simp
next
  case (Suc k)
  from Suc.prems(1) obtain seg where
    seg: "NewExecutionSegment f (f + inc) = Inr seg" and
    rest: "Split_loop k (f + inc) inc (acc @ [seg]) = Inr (res, f')"
    by (auto simp: Let_def split: sum.splits)
  have "list_all valid_segment (acc @ [seg])"
    using Suc.prems(2) NewExecutionSegment_Inr_valid [OF seg] by simp
  with Suc.IH [OF rest] show ?case .
qed

lemma Split_parts_valid:
  "Split es n = Inr parts \<Longrightarrow> list_all valid_segment parts"
  by (auto simp: Split_def Let_def split: if_splits sum.splits prod.splits option.splits
           dest: Split_loop_valid)

text \<open>
  A sub-segment lies inside its parent: its end is
  \<open>parent.from + parent.length * child.to\<close>, at most \<open>parent.to\<close>.
\<close>

lemma SubSegment_valid:
  assumes "valid_or_absent parent" and "valid_or_absent child"
    and "SubSegment parent child = Some r"
  shows "valid_segment r"
proof (cases child)
  case None
  with assms show ?thesis by (simp add: SubSegment_def valid_or_absent_def)
next
  case (Some c)
  define pf where "pf = (case parent of None \<Rightarrow> 0 | Some p \<Rightarrow> es_from p)"
  define pl where "pl = (case parent of None \<Rightarrow> 1 | Some p \<Rightarrow> es_length p)"
  have r: "r = \<lparr>es_from = pl * es_from c + pf, es_to = pl * es_from c + pf + pl * es_length c,
                 es_length = pl * es_length c\<rparr>"
    using assms(3) Some by (auto simp: SubSegment_def Let_def pf_def pl_def split: option.splits)
  have c: "0 \<le> es_from c" "es_from c < es_to c" "es_to c \<le> 1"
    "es_length c = es_to c - es_from c"
    using assms(2) Some by (simp_all add: valid_or_absent_def valid_segment_def)
  have p: "0 \<le> pf" "0 < pl" "pf + pl \<le> 1"
    using assms(1)
    by (auto simp: valid_or_absent_def valid_segment_def pf_def pl_def split: option.splits)
  have 1: "0 \<le> pl * es_from c" using p(2) c(1) by simp
  have 2: "0 < pl * es_length c" using p(2) c(2,4) by simp
  have "pl * es_from c + pl * es_length c = pl * es_to c"
    unfolding c(4) by (simp add: algebra_simps)
  moreover have "pl * es_to c \<le> pl" using p(2) c(3) by (simp add: mult_left_le)
  ultimately have 3: "pl * es_from c + pf + pl * es_length c \<le> 1" using p(3) by linarith
  show ?thesis unfolding r valid_segment_def using 1 2 3 p(1) by simp
qed

text \<open>
  C4: every segment that a successful operation produces satisfies \<open>0 \<le> from\<close>,
  \<open>from < to\<close>, \<open>to \<le> 1\<close> and \<open>length = to - from\<close> (\<open>valid_segment\<close>): the segment
  returned by \<open>NewExecutionSegment\<close>, the receiver after an \<open>UnmarshalText\<close> that
  returned no error, every element of a slice returned by \<open>Split\<close>, and a present
  result of \<open>SubSegment\<close> applied to arguments that are valid or absent.
\<close>

theorem produced_segments_valid:
  "(NewExecutionSegment f t = Inr s1 \<longrightarrow> valid_segment s1) \<and>
   (UnmarshalText intSetString ratSetString es text = (s2, None) \<longrightarrow> valid_segment s2) \<and>
   (Split es' n = Inr parts \<longrightarrow> (\<forall>p \<in> set parts. valid_segment p)) \<and>
   (valid_or_absent parent \<and> valid_or_absent child \<and> SubSegment parent child = Some s3
      \<longrightarrow> valid_segment s3)"
proof (intro conjI impI)
  assume "NewExecutionSegment f t = Inr s1"
  then show "valid_segment s1" by (rule NewExecutionSegment_Inr_valid)
next
  assume "UnmarshalText intSetString ratSetString es text = (s2, None)"
  then show "valid_segment s2" by (rule UnmarshalText_success_valid)
next
  assume "Split es' n = Inr parts"
  then have "list_all valid_segment parts" by (rule Split_parts_valid)
  then show "\<forall>p \<in> set parts. valid_segment p" by (simp add: list_all_iff)
next
  assume "valid_or_absent parent \<and> valid_or_absent child \<and> SubSegment parent child = Some s3"
  then show "valid_segment s3" using SubSegment_valid by blast
qed

theorem produced_segments_valid_witness:
  "NewExecutionSegment (1/2) (3/4) = Inr \<lparr>es_from = 1/2, es_to = 3/4, es_length = 1/4\<rparr> \<and>
   valid_segment \<lparr>es_from = 1/2, es_to = 3/4, es_length = 1/4\<rparr> \<and>
   UnmarshalText decimal_int fraction_rat \<lparr>es_from = 0, es_to = 1, es_length = 1\<rparr> ''20%'' =
     (\<lparr>es_from = 0, es_to = 1/5, es_length = 1/5\<rparr>, None) \<and>
   valid_segment \<lparr>es_from = 0, es_to = 1/5, es_length = 1/5\<rparr> \<and>
   Split (Some \<lparr>es_from = 1/2, es_to = 1, es_length = 1/2\<rparr>) 2 =
     Inr [\<lparr>es_from = 1/2, es_to = 3/4, es_length = 1/4\<rparr>,
          \<lparr>es_from = 3/4, es_to = 1, es_length = 1/4\<rparr>] \<and>
   valid_segment \<lparr>es_from = 3/4, es_to = 1, es_length = 1/4\<rparr> \<and>
   valid_or_absent (Some \<lparr>es_from = 1/2, es_to = 1, es_length = 1/2\<rparr>) \<and>
   valid_or_absent (Some \<lparr>es_from = 1/3, es_to = 2/3, es_length = 1/3\<rparr>) \<and>
   SubSegment (Some \<lparr>es_from = 1/2, es_to = 1, es_length = 1/2\<rparr>)
              (Some \<lparr>es_from = 1/3, es_to = 2/3, es_length = 1/3\<rparr>) =
     Some \<lparr>es_from = 2/3, es_to = 5/6, es_length = 1/6\<rparr> \<and>
   valid_segment \<lparr>es_from = 2/3, es_to = 5/6, es_length = 1/6\<rparr>"
proof -
  have new: "NewExecutionSegment (1/2) (3/4) =
      Inr \<lparr>es_from = 1/2, es_to = 3/4, es_length = 1/4\<rparr>"
    by code_simp
  have parse: "UnmarshalText decimal_int fraction_rat
      \<lparr>es_from = 0, es_to = 1, es_length = 1\<rparr> ''20%'' =
      (\<lparr>es_from = 0, es_to = 1/5, es_length = 1/5\<rparr>, None)"
    by code_simp
  have split: "Split (Some \<lparr>es_from = 1/2, es_to = 1, es_length = 1/2\<rparr>) 2 =
      Inr [\<lparr>es_from = 1/2, es_to = 3/4, es_length = 1/4\<rparr>,
           \<lparr>es_from = 3/4, es_to = 1, es_length = 1/4\<rparr>]"
    by code_simp
  have args: "valid_or_absent (Some \<lparr>es_from = 1/2, es_to = 1, es_length = 1/2\<rparr>)"
    "valid_or_absent (Some \<lparr>es_from = 1/3, es_to = 2/3, es_length = 1/3\<rparr>)"
    by (simp_all add: valid_or_absent_def valid_segment_def)
  have sub: "SubSegment (Some \<lparr>es_from = 1/2, es_to = 1, es_length = 1/2\<rparr>)
      (Some \<lparr>es_from = 1/3, es_to = 2/3, es_length = 1/3\<rparr>) =
      Some \<lparr>es_from = 2/3, es_to = 5/6, es_length = 1/6\<rparr>"
    by code_simp
  show ?thesis
    using produced_segments_valid [of "1/2" "3/4" _ decimal_int fraction_rat
        "\<lparr>es_from = 0, es_to = 1, es_length = 1\<rparr>" "''20%''" _
        "Some \<lparr>es_from = 1/2, es_to = 1, es_length = 1/2\<rparr>" 2 _
        "Some \<lparr>es_from = 1/2, es_to = 1, es_length = 1/2\<rparr>"
        "Some \<lparr>es_from = 1/3, es_to = 2/3, es_length = 1/3\<rparr>" _]
      new parse split args sub
    by simp
qed

section \<open>Splitting into equal parts\<close>

lemma Split_loop_run:
  assumes "0 \<le> f" and "0 < inc" and "f + of_nat k * inc \<le> 1"
  shows "Split_loop k f inc acc = Inr (acc @ map (Split_part f inc) [0..<k], f + of_nat k * inc)"
  using assms
proof (induction k arbitrary: f acc)
  case 0
  then show ?case by simp
next
  case (Suc k)
  have le: "f + inc \<le> f + of_nat (Suc k) * inc"
    using Suc.prems(2) by (simp add: algebra_simps)
  then have top: "f + inc \<le> 1" using Suc.prems(3) by linarith
  have new: "NewExecutionSegment f (f + inc) = Inr (Split_part f inc 0)"
    using Suc.prems(1,2) top by (simp add: NewExecutionSegment_def Split_part_def)
  have step: "f + inc + of_nat k * inc = f + of_nat (Suc k) * inc"
    by (simp add: algebra_simps)
  have shift: "Split_part (f + inc) inc i = Split_part f inc (Suc i)" for i
    by (simp add: Split_part_def algebra_simps)
  have IH: "Split_loop k (f + inc) inc (acc @ [Split_part f inc 0]) =
      Inr ((acc @ [Split_part f inc 0]) @ map (Split_part (f + inc) inc) [0..<k], f + inc + of_nat k * inc)"
    using Suc.prems by (intro Suc.IH) (simp_all add: step)
  have "[0..<Suc k] = 0 # map Suc [0..<k]"
    by (simp add: upt_conv_Cons map_Suc_upt del: upt_Suc)
  then have "map (Split_part f inc) [0..<Suc k] = Split_part f inc 0 # map (Split_part (f + inc) inc) [0..<k]"
    by (simp add: shift comp_def del: upt_Suc)
  then show ?case
    using new IH step by (simp add: Let_def del: upt_Suc)
qed

lemma Split_run:
  assumes "valid_or_absent es" and "1 \<le> sint n"
  shows "Split es n =
     Inr (map (Split_part (bound_from es) ((bound_to es - bound_from es) / of_int (sint n)))
           [0..<nat (sint n)])"
proof -
  define f t where "f = bound_from es" and "t = bound_to es"
  define k where "k = nat (sint n)"
  define inc where "inc = (t - f) / of_int (sint n)"
  have k: "0 < k" "of_int (sint n) = (of_nat k :: rat)" 
    using assms(2) by (simp_all add: k_def)
  have ft: "0 \<le> f" "f < t" "t \<le> 1"
    using assms(1)
    by (auto simp: f_def t_def bound_from_def bound_to_def valid_or_absent_def valid_segment_def
             split: option.splits)
  have inc: "0 < inc" using ft k by (simp add: inc_def)
  have total: "f + of_nat k * inc = t"
    using k by (simp add: inc_def)
  have case_eq: "(case es of None \<Rightarrow> (0, 1) | Some s \<Rightarrow> (es_from s, es_to s)) = (f, t)"
    by (simp add: f_def t_def bound_from_def bound_to_def split: option.splits)
  have "Split_loop k f inc [] = Inr ([] @ map (Split_part f inc) [0..<k], f + of_nat k * inc)"
    using ft(1) inc ft(3) total by (intro Split_loop_run) simp_all
  then have loop: "Split_loop k f inc [] = Inr (map (Split_part f inc) [0..<k], t)"
    unfolding total by simp
  have "Split es n =
      (case Split_loop k f inc [] of
         Inl err \<Rightarrow> Inl err
       | Inr (results, from') \<Rightarrow>
           if from' \<noteq> t then Inl (BoundaryMismatch from' t) else Inr results)"
    using assms(2) by (simp add: Split_def case_eq Let_def k_def inc_def)
  then have "Split es n = Inr (map (Split_part f inc) [0..<k])"
    by (simp add: loop)
  then show ?thesis
    unfolding f_def t_def inc_def k_def .
qed

text \<open>
  C5: \<open>Split\<close> of a segment that is valid or absent (the absent one standing for
  \<open>(0, 1]\<close>) returns an error exactly when \<open>numParts < 1\<close>.  Otherwise it returns
  \<open>numParts\<close> segments, each of length \<open>(to - from) / numParts\<close>; the first starts at the
  segment's \<open>from\<close>, the last ends at its \<open>to\<close>, and each part ends exactly where the
  next one starts.
\<close>

theorem Split_exact:
  assumes "valid_or_absent es"
  shows "(isl (Split es n) \<longleftrightarrow> sint n < 1) \<and>
    (1 \<le> sint n \<longrightarrow>
       (\<exists>parts. Split es n = Inr parts \<and>
          int (length parts) = sint n \<and>
          (\<forall>p \<in> set parts.
             es_to p - es_from p = (bound_to es - bound_from es) / of_int (sint n) \<and>
             es_length p = (bound_to es - bound_from es) / of_int (sint n)) \<and>
          es_from (hd parts) = bound_from es \<and>
          es_to (last parts) = bound_to es \<and>
          (\<forall>i. Suc i < length parts \<longrightarrow> es_to (parts ! i) = es_from (parts ! Suc i))))"
proof (cases "sint n < 1")
  case True
  then show ?thesis by (simp add: Split_def)
next
  case False
  then have n: "1 \<le> sint n" by simp
  define inc where "inc = (bound_to es - bound_from es) / of_int (sint n)"
  define k where "k = nat (sint n)"
  define parts where "parts = map (Split_part (bound_from es) inc) [0..<k]"
  have run: "Split es n = Inr parts"
    using Split_run [OF assms n] by (simp add: parts_def inc_def k_def)
  have k: "0 < k" "of_int (sint n) = (of_nat k :: rat)" using n by (simp_all add: k_def)
  have len: "length parts = k" by (simp add: parts_def)
  have nth: "parts ! i = Split_part (bound_from es) inc i" if "i < k" for i
    using that by (simp add: parts_def)
  have a: "int (length parts) = sint n" using n by (simp add: len k_def)
  have b: "\<forall>p \<in> set parts. es_to p - es_from p = inc \<and> es_length p = inc"
    by (auto simp: parts_def Split_part_def algebra_simps)
  have ne: "parts \<noteq> []" using k(1) len by auto
  have c: "es_from (hd parts) = bound_from es"
    using ne nth [of 0] k(1) by (simp add: hd_conv_nth Split_part_def)
  have "bound_from es + of_nat k * inc = bound_to es"
    using k by (simp add: inc_def)
  then have d: "es_to (last parts) = bound_to es"
    using ne nth [of "k - 1"] k(1) by (simp add: last_conv_nth len Split_part_def)
  have e: "\<forall>i. Suc i < length parts \<longrightarrow> es_to (parts ! i) = es_from (parts ! Suc i)"
    by (simp add: len nth Split_part_def)
  show ?thesis
    using False run a b c d e unfolding inc_def by auto
qed

theorem Split_exact_witness:
  "valid_or_absent (Some \<lparr>es_from = 0, es_to = 1, es_length = 1\<rparr>) \<and>
   isl (Split (Some \<lparr>es_from = 0, es_to = 1, es_length = 1\<rparr>) 0) \<and>
   \<not> isl (Split (Some \<lparr>es_from = 0, es_to = 1, es_length = 1\<rparr>) 3) \<and>
   Split (Some \<lparr>es_from = 0, es_to = 1, es_length = 1\<rparr>) 3 =
     Inr [\<lparr>es_from = 0, es_to = 1/3, es_length = 1/3\<rparr>,
          \<lparr>es_from = 1/3, es_to = 2/3, es_length = 1/3\<rparr>,
          \<lparr>es_from = 2/3, es_to = 1, es_length = 1/3\<rparr>]"
proof -
  have v: "valid_or_absent (Some \<lparr>es_from = 0, es_to = 1, es_length = 1\<rparr>)"
    by (simp add: valid_or_absent_def valid_segment_def)
  have three: "Split (Some \<lparr>es_from = 0, es_to = 1, es_length = 1\<rparr>) 3 =
     Inr [\<lparr>es_from = 0, es_to = 1/3, es_length = 1/3\<rparr>,
          \<lparr>es_from = 1/3, es_to = 2/3, es_length = 1/3\<rparr>,
          \<lparr>es_from = 2/3, es_to = 1, es_length = 1/3\<rparr>]"
    by code_simp
  from v three Split_exact [OF v, of 0] Split_exact [OF v, of 3]
  show ?thesis by simp
qed

section \<open>Sub-segments\<close>

text \<open>
  C6: \<open>SubSegment\<close> with an absent child returns the parent unchanged.  With a child
  that is present, and an absent parent read as \<open>(0, 1]\<close>, the result has
  \<open>from = parent.from + parent.length * child.from\<close>,
  \<open>length = parent.length * child.length\<close> and \<open>to = from + length\<close>.  In particular the
  sub-segment \<open>(0, 1/2]\<close> of \<open>(1/2, 1]\<close> is \<open>(1/2, 3/4]\<close>.
\<close>

theorem SubSegment_formula:
  "SubSegment parent None = parent \<and>
   SubSegment (Some p) (Some c) =
     Some \<lparr>es_from = es_from p + es_length p * es_from c,
           es_to = es_from p + es_length p * es_from c + es_length p * es_length c,
           es_length = es_length p * es_length c\<rparr> \<and>
   SubSegment None (Some c) =
     Some \<lparr>es_from = 0 + 1 * es_from c,
           es_to = 0 + 1 * es_from c + 1 * es_length c,
           es_length = 1 * es_length c\<rparr> \<and>
   NewExecutionSegment (1/2) 1 = Inr \<lparr>es_from = 1/2, es_to = 1, es_length = 1/2\<rparr> \<and>
   NewExecutionSegment 0 (1/2) = Inr \<lparr>es_from = 0, es_to = 1/2, es_length = 1/2\<rparr> \<and>
   NewExecutionSegment (1/2) (3/4) = Inr \<lparr>es_from = 1/2, es_to = 3/4, es_length = 1/4\<rparr> \<and>
   SubSegment (Some \<lparr>es_from = 1/2, es_to = 1, es_length = 1/2\<rparr>)
              (Some \<lparr>es_from = 0, es_to = 1/2, es_length = 1/2\<rparr>) =
     Some \<lparr>es_from = 1/2, es_to = 3/4, es_length = 1/4\<rparr>"
  by (simp add: SubSegment_def NewExecutionSegment_def Let_def add.commute)

section \<open>The absent segment scales nothing\<close>

text \<open>
  C9: for the absent (nil) segment, \<open>Scale\<close> returns every \<open>int64\<close> value as it is,
  and \<open>InPlaceScaleRat\<close> and \<open>CopyScaleRat\<close> both return the rational they are given
  and leave it as it was.
\<close>

theorem absent_segment_identity:
  "Scale None v = v \<and>
   InPlaceScaleRat None r = (r, r) \<and>
   CopyScaleRat None r = (r, r)"
  by (simp add: Scale_def InPlaceScaleRat_def CopyScaleRat_def)

section \<open>UnmarshalText and its receiver\<close>

text \<open>
  C10: whatever the receiver holds and whatever the text is, when \<open>UnmarshalText\<close>
  returns an error, from reading a value or from the validation of the range, the
  receiver holds what it held before the call; the receiver changes only when the
  call returns no error.
\<close>

theorem UnmarshalText_atomic:
  "UnmarshalText intSetString ratSetString es text = (es', r) \<Longrightarrow>
     (r \<noteq> None \<longrightarrow> es' = es) \<and> (es' \<noteq> es \<longrightarrow> r = None)"
  by (auto simp: UnmarshalText_def Let_def split: if_splits sum.splits prod.splits)

theorem UnmarshalText_atomic_witness:
  "UnmarshalText decimal_int fraction_rat \<lparr>es_from = 0, es_to = 1/2, es_length = 1/2\<rparr> ''2:1'' =
     (\<lparr>es_from = 0, es_to = 1/2, es_length = 1/2\<rparr>, Some (StartNotBeforeEnd 2 1)) \<and>
   UnmarshalText decimal_int fraction_rat \<lparr>es_from = 0, es_to = 1/2, es_length = 1/2\<rparr> ''1a5%'' =
     (\<lparr>es_from = 0, es_to = 1/2, es_length = 1/2\<rparr>, Some (NotAPercentage ''1a5%'')) \<and>
   UnmarshalText decimal_int fraction_rat \<lparr>es_from = 0, es_to = 1/2, es_length = 1/2\<rparr>
       ''1/2:3/4'' =
     (\<lparr>es_from = 1/2, es_to = 3/4, es_length = 1/4\<rparr>, None)"
proof -
  have 1: "UnmarshalText decimal_int fraction_rat
      \<lparr>es_from = 0, es_to = 1/2, es_length = 1/2\<rparr> ''2:1'' =
      (\<lparr>es_from = 0, es_to = 1/2, es_length = 1/2\<rparr>, Some (StartNotBeforeEnd 2 1))"
    by code_simp
  have 2: "UnmarshalText decimal_int fraction_rat
      \<lparr>es_from = 0, es_to = 1/2, es_length = 1/2\<rparr> ''1a5%'' =
      (\<lparr>es_from = 0, es_to = 1/2, es_length = 1/2\<rparr>, Some (NotAPercentage ''1a5%''))"
    by code_simp
  have 3: "UnmarshalText decimal_int fraction_rat
      \<lparr>es_from = 0, es_to = 1/2, es_length = 1/2\<rparr> ''1/2:3/4'' =
      (\<lparr>es_from = 1/2, es_to = 3/4, es_length = 1/4\<rparr>, None)"
    by code_simp
  from UnmarshalText_atomic [OF 1] UnmarshalText_atomic [OF 2] UnmarshalText_atomic [OF 3]
    1 2 3
  show ?thesis by simp
qed

section \<open>The empty text\<close>

text \<open>
  C8: the comment on \<open>UnmarshalText\<close> says that empty values should be treated as
  \<open>"1"\<close>, the whole execution.  The code has no branch for the empty text: it has no
  colon and no \<open>%\<close> suffix, so it goes to \<open>big.Rat.SetString\<close>, which reports failure on
  the empty string.  \<open>UnmarshalText\<close> then returns the error of \<open>stringToRat\<close> and leaves
  the receiver as it was.
\<close>

theorem UnmarshalText_empty_text:
  "ratSetString [] = None \<Longrightarrow>
     UnmarshalText intSetString ratSetString es [] = (es, Some (NotARational []))"
  by (simp add: UnmarshalText_def ContainsRune_def stringToRat_def HasSuffix_def)

theorem UnmarshalText_empty_text_witness:
  "fraction_rat [] = None \<and>
   UnmarshalText decimal_int fraction_rat \<lparr>es_from = 1/2, es_to = 1, es_length = 1/2\<rparr> [] =
     (\<lparr>es_from = 1/2, es_to = 1, es_length = 1/2\<rparr>, Some (NotARational []))"
proof -
  have empty: "fraction_rat [] = None" by code_simp
  from empty UnmarshalText_empty_text
      [of fraction_rat decimal_int "\<lparr>es_from = 1/2, es_to = 1, es_length = 1/2\<rparr>"]
  show ?thesis by simp
qed

section \<open>Rounding and Scale\<close>

text \<open>
  Where the result fits an \<open>int64\<close>, \<open>Int64\<close> returns it unchanged.
\<close>

lemma Int64_in_range:
  assumes "- (2 ^ 63) \<le> x" and "x < 2 ^ 63"
  shows "sint (Int64 x) = x"
proof -
  have "Int64 x = word_of_int x" by (simp add: Int64_def)
  then show ?thesis
    using assms by (simp add: sint_sbintrunc' signed_take_bit_int_eq_self)
qed

lemma half_up_int:
  fixes n d :: int
  assumes "0 < d" and "0 \<le> n"
  shows "(if d \<le> (n mod d) * 2 then n div d + 1 else n div d) = (2 * n + d) div (2 * d)"
proof -
  define a r where "a = n div d" and "r = n mod d"
  have n: "n = d * a + r" by (simp add: a_def r_def)
  have r: "0 \<le> r" "r < d" using assms(1) by (simp_all add: r_def)
  show ?thesis
  proof (cases "d \<le> r * 2")
    case True
    have "(2 * n + d) div (2 * d) = a + 1"
    proof (rule int_div_pos_eq)
      show "2 * n + d = 2 * d * (a + 1) + (2 * r - d)"
        unfolding n by (simp add: algebra_simps)
      show "0 \<le> 2 * r - d" using True by simp
      show "2 * r - d < 2 * d" using r by simp
    qed
    with True show ?thesis by (simp add: a_def r_def)
  next
    case False
    have "(2 * n + d) div (2 * d) = a"
    proof (rule int_div_pos_eq)
      show "2 * n + d = 2 * d * a + (2 * r + d)"
        unfolding n by (simp add: algebra_simps)
      show "0 \<le> 2 * r + d" using r assms(1) by simp
      show "2 * r + d < 2 * d" using False by simp
    qed
    with False show ?thesis by (simp add: a_def r_def)
  qed
qed

lemma roundUp_half_up:
  assumes "- 1 / 2 < q"
  shows "roundUp q = \<lfloor>q + 1 / 2\<rfloor>"
proof -
  obtain n d where nd: "quotient_of q = (n, d)" by (cases "quotient_of q")
  have d: "0 < d" using nd by (rule quotient_of_denom_pos)
  have q: "q = of_int n / of_int d" using nd by (rule quotient_of_div)
  show ?thesis
  proof (cases "0 \<le> n")
    case True
    have sd: "n sdiv d = n div d" "n smod d = n mod d"
      using True d by (auto simp: signed_divide_int_def signed_modulo_int_def sgn_if)
    have "q + 1 / 2 = of_int (2 * n + d) / of_int (2 * d)"
      using d by (simp add: q field_simps)
    then have "\<lfloor>q + 1 / 2\<rfloor> = (2 * n + d) div (2 * d)"
      by (simp only: floor_divide_of_int_eq)
    moreover have "roundUp q = (if d \<le> (n mod d) * 2 then n div d + 1 else n div d)"
      by (simp add: roundUp_def nd sd Let_def)
    ultimately show ?thesis
      using half_up_int [OF d True] by simp
  next
    case False
    then have neg: "n < 0" by simp
    have "- 1 / 2 < (of_int n :: rat) / of_int d" using assms q by simp
    then have "- (of_int d :: rat) < 2 * of_int n" using d by (simp add: field_simps)
    then have "(of_int (- d) :: rat) < of_int (2 * n)" by simp
    then have small: "- d < 2 * n" by (simp only: of_int_less_iff)
    then have "\<bar>n\<bar> < d" using neg by simp
    then have sd: "n sdiv d = 0" "n smod d = n"
      using neg d by (auto simp: signed_divide_int_def signed_modulo_int_def sgn_if)
    have "0 < q + 1 / 2" using assms by simp
    moreover have "q < 0" using neg d by (simp add: q divide_neg_pos)
    ultimately have "\<lfloor>q + 1 / 2\<rfloor> = 0" by (simp add: floor_eq_iff)
    then show ?thesis
      using neg d by (simp add: roundUp_def nd sd Let_def)
  qed
qed

lemma roundUp_negative:
  assumes "q < 0"
  shows "roundUp q = \<lceil>q\<rceil>"
proof -
  obtain n d where nd: "quotient_of q = (n, d)" by (cases "quotient_of q")
  have d: "0 < d" using nd by (rule quotient_of_denom_pos)
  have q: "q = of_int n / of_int d" using nd by (rule quotient_of_div)
  have neg: "n < 0"
  proof (rule ccontr)
    assume "\<not> n < 0"
    then have "0 \<le> q" using d by (simp add: q)
    with assms show False by simp
  qed
  have sd: "n sdiv d = - ((- n) div d)" "n smod d = - ((- n) mod d)"
    using neg d by (auto simp: signed_divide_int_def signed_modulo_int_def sgn_if)
  have nr: "\<not> d \<le> - ((- n) mod d) * 2"
    using pos_mod_sign [OF d, of "- n"] d by linarith
  have "\<lceil>q\<rceil> = - \<lfloor>- q\<rfloor>" by (simp add: ceiling_def)
  also have "- q = of_int (- n) / of_int d" by (simp add: q)
  also have "\<lfloor>(of_int (- n) :: rat) / of_int d\<rfloor> = (- n) div d" by (rule floor_divide_of_int_eq)
  finally show ?thesis
    using nr by (simp add: roundUp_def nd sd Let_def)
qed

lemma roundUp_round_half_away:
  assumes "- 1 / 2 < q"
  shows "roundUp q = round_half_away q"
proof (cases "q < 0")
  case True
  then have "\<lfloor>- q + 1 / 2\<rfloor> = 0" "\<lfloor>q + 1 / 2\<rfloor> = 0"
    using assms by (simp_all add: floor_eq_iff)
  then show ?thesis using True assms by (simp add: roundUp_half_up round_half_away_def)
next
  case False
  then show ?thesis using assms by (simp add: roundUp_half_up round_half_away_def)
qed

lemma Scale_nonneg:
  assumes s: "valid_segment s" and v: "0 \<le> sint v"
  shows "sint (Scale (Some s) v) =
           \<lfloor>of_int (sint v) * es_to s + 1 / 2\<rfloor> - \<lfloor>of_int (sint v) * es_from s + 1 / 2\<rfloor>"
    and "roundUp (of_int (sint v) * es_from s) = \<lfloor>of_int (sint v) * es_from s + 1 / 2\<rfloor>"
    and "- 1 / 2 < of_int (sint v) * es_to s - of_int \<lfloor>of_int (sint v) * es_from s + 1 / 2\<rfloor>"
    and "0 \<le> sint (Scale (Some s) v)" and "sint (Scale (Some s) v) \<le> sint v"
proof -
  define V :: rat where "V = of_int (sint v)"
  define R where "R = \<lfloor>V * es_from s + 1 / 2\<rfloor>"
  define T where "T = \<lfloor>V * es_to s + 1 / 2\<rfloor>"
  have V: "0 \<le> V" using v by (simp only: V_def of_int_0_le_iff)
  have b: "0 \<le> es_from s" "es_from s < es_to s" "es_to s \<le> 1"
    using s by (simp_all add: valid_segment_def)
  have f0: "0 \<le> V * es_from s" using V b(1) by simp
  have ft: "V * es_from s \<le> V * es_to s" using V b(2) by (simp add: mult_left_mono)
  have t1: "V * es_to s \<le> V" using V b(3) by (simp add: mult_left_le)
  have rf: "roundUp (V * es_from s) = R"
    unfolding R_def using f0 by (intro roundUp_half_up) linarith
  have "of_int R \<le> V * es_from s + 1 / 2" unfolding R_def by (rule of_int_floor_le)
  moreover have "V * es_from s + 1 / 2 < V * es_to s + 1 / 2 \<or> V = 0"
    using V b(2) by (cases "V = 0") simp_all
  moreover have "R = 0" if "V = 0" using that by (simp add: R_def floor_eq_iff)
  ultimately have gt: "- 1 / 2 < V * es_to s - of_int R"
    by (cases "V = 0") auto
  have "roundUp (V * es_to s - of_int R) = \<lfloor>V * es_to s - of_int R + 1 / 2\<rfloor>"
    using gt by (rule roundUp_half_up)
  also have "V * es_to s - of_int R + 1 / 2 = V * es_to s + 1 / 2 - of_int R" by simp
  also have "\<lfloor>V * es_to s + 1 / 2 - of_int R\<rfloor> = T - R"
    by (simp only: floor_diff_of_int T_def)
  finally have rt: "roundUp (V * es_to s - of_int R) = T - R" .
  have RT: "R \<le> T" unfolding R_def T_def using ft by (intro floor_mono) simp
  have R0: "0 \<le> R" unfolding R_def using f0 by simp
  have "T \<le> \<lfloor>V + 1 / 2\<rfloor>" unfolding T_def using t1 by (intro floor_mono) simp
  also have "\<lfloor>V + 1 / 2\<rfloor> = sint v"
    unfolding V_def by (simp add: floor_eq_iff)
  finally have Tv: "T \<le> sint v" .
  have "sint v < 2 ^ 63" using sint_lt [of v] by simp
  then have range: "- (2 ^ 63) \<le> T - R" "T - R < 2 ^ 63"
    using RT R0 Tv by simp_all
  have sc: "Scale (Some s) v = Int64 (T - R)"
    by (simp add: Scale_def Let_def V_def [symmetric] rf rt del: of_int_sint)
  have res: "sint (Scale (Some s) v) = T - R"
    unfolding sc using range by (rule Int64_in_range)
  show "sint (Scale (Some s) v) =
           \<lfloor>of_int (sint v) * es_to s + 1 / 2\<rfloor> - \<lfloor>of_int (sint v) * es_from s + 1 / 2\<rfloor>"
    using res by (simp add: T_def R_def V_def)
  show "roundUp (of_int (sint v) * es_from s) = \<lfloor>of_int (sint v) * es_from s + 1 / 2\<rfloor>"
    using rf by (simp add: R_def V_def)
  show "- 1 / 2 < of_int (sint v) * es_to s - of_int \<lfloor>of_int (sint v) * es_from s + 1 / 2\<rfloor>"
    using gt by (simp add: R_def V_def)
  show "0 \<le> sint (Scale (Some s) v)" using res RT by simp
  show "sint (Scale (Some s) v) \<le> sint v" using res R0 Tv by simp
qed

lemma Scale_consecutive_sum:
  assumes "0 \<le> sint v"
  shows "list_all valid_segment ss \<Longrightarrow> consecutive a ss b \<Longrightarrow>
     (\<Sum>s\<leftarrow>ss. sint (Scale (Some s) v)) =
       \<lfloor>of_int (sint v) * b + 1 / 2\<rfloor> - \<lfloor>of_int (sint v) * a + 1 / 2\<rfloor>"
proof (induction ss arbitrary: a)
  case Nil
  then show ?case by simp
next
  case (Cons s ss)
  from Cons.prems have s: "valid_segment s" and rest: "list_all valid_segment ss"
    and a: "es_from s = a" and chain: "consecutive (es_to s) ss b"
    by simp_all
  show ?case
    using Cons.IH [OF rest chain] Scale_nonneg(1) [OF s assms] a by simp
qed

text \<open>
  \<open>round_half_away\<close> is the rounding the specification describes: its result is
  within a half of the argument, and at a tie it is the neighbour of larger magnitude.
\<close>

lemma round_half_away_nearest: "\<bar>of_int (round_half_away q) - q\<bar> \<le> 1 / 2"
proof (cases "q < 0")
  case True
  define m where "m = \<lfloor>- q + 1 / 2\<rfloor>"
  have "of_int m \<le> - q + 1 / 2" "- q + 1 / 2 < of_int m + 1"
    unfolding m_def by linarith+
  then have "\<bar>- of_int m - q\<bar> \<le> 1 / 2" by linarith
  then show ?thesis using True by (simp add: round_half_away_def m_def)
next
  case False
  define m where "m = \<lfloor>q + 1 / 2\<rfloor>"
  have "of_int m \<le> q + 1 / 2" "q + 1 / 2 < of_int m + 1"
    unfolding m_def by linarith+
  then have "\<bar>of_int m - q\<bar> \<le> 1 / 2" by linarith
  then show ?thesis using False by (simp add: round_half_away_def m_def)
qed

lemma round_half_away_tie:
  assumes "q = of_int k + 1 / 2"
  shows "\<bar>of_int (round_half_away q)\<bar> = \<bar>q\<bar> + 1 / 2"
proof (cases "q < 0")
  case True
  have "- q + 1 / 2 = of_int (- k)" using assms by simp
  then have "\<lfloor>- q + 1 / 2\<rfloor> = - k" by (simp only: floor_of_int)
  moreover have "(of_int k :: rat) < 0" using True assms by simp
  ultimately show ?thesis using True assms by (simp add: round_half_away_def)
next
  case False
  have "q + 1 / 2 = of_int (k + 1)" using assms by simp
  then have "\<lfloor>q + 1 / 2\<rfloor> = k + 1" by (simp only: floor_of_int)
  moreover have "0 \<le> (of_int k :: rat) + 1 / 2" using False assms by simp
  then have "- 1 < k" by linarith
  ultimately show ?thesis using False assms by (simp add: round_half_away_def)
qed

text \<open>
  C2, as amended: for every valid segment and every \<open>int64\<close> value that is not
  negative, \<open>Scale\<close> returns \<open>round (value * to - round (value * from))\<close>, where
  \<open>round\<close> goes to the nearest integer and a tie goes away from zero.
\<close>

theorem Scale_rounding:
  assumes "valid_segment s" and "0 \<le> sint v"
  shows "sint (Scale (Some s) v) =
     round_half_away (of_int (sint v) * es_to s -
                      of_int (round_half_away (of_int (sint v) * es_from s)))"
proof -
  have "0 \<le> (of_int (sint v) :: rat)"
    using assms(2) by (simp only: of_int_0_le_iff)
  moreover have "0 \<le> es_from s"
    using assms(1) by (simp add: valid_segment_def)
  ultimately have "0 \<le> (of_int (sint v) :: rat) * es_from s"
    by (rule mult_nonneg_nonneg)
  then have f: "round_half_away (of_int (sint v) * es_from s) =
      \<lfloor>of_int (sint v) * es_from s + 1 / 2\<rfloor>"
    by (simp add: round_half_away_def)
  have "round_half_away (of_int (sint v) * es_to s -
          of_int \<lfloor>of_int (sint v) * es_from s + 1 / 2\<rfloor>) =
        roundUp (of_int (sint v) * es_to s - of_int \<lfloor>of_int (sint v) * es_from s + 1 / 2\<rfloor>)"
    using Scale_nonneg(3) [OF assms] by (rule roundUp_round_half_away [symmetric])
  also have "\<dots> = \<lfloor>of_int (sint v) * es_to s -
      of_int \<lfloor>of_int (sint v) * es_from s + 1 / 2\<rfloor> + 1 / 2\<rfloor>"
    using Scale_nonneg(3) [OF assms] by (rule roundUp_half_up)
  also have "\<dots> = \<lfloor>of_int (sint v) * es_to s + 1 / 2 -
      of_int \<lfloor>of_int (sint v) * es_from s + 1 / 2\<rfloor>\<rfloor>"
    by (simp add: algebra_simps)
  also have "\<dots> = \<lfloor>of_int (sint v) * es_to s + 1 / 2\<rfloor> - \<lfloor>of_int (sint v) * es_from s + 1 / 2\<rfloor>"
    by (simp only: floor_diff_of_int)
  finally show ?thesis
    using Scale_nonneg(1) [OF assms] f by simp
qed

theorem Scale_rounding_witness:
  "valid_segment \<lparr>es_from = 1/3, es_to = 2/3, es_length = 1/3\<rparr> \<and>
   0 \<le> sint (10 :: 64 word) \<and>
   sint (Scale (Some \<lparr>es_from = 1/3, es_to = 2/3, es_length = 1/3\<rparr>) 10) = 4 \<and>
   round_half_away (of_int (sint (10 :: 64 word)) * (2/3) -
     of_int (round_half_away (of_int (sint (10 :: 64 word)) * (1/3)))) = 4"
proof -
  have v: "valid_segment \<lparr>es_from = 1/3, es_to = 2/3, es_length = 1/3\<rparr>"
    by (simp add: valid_segment_def)
  have n: "0 \<le> sint (10 :: 64 word)" by simp
  have r: "round_half_away (of_int (sint (10 :: 64 word)) * (2/3) -
     of_int (round_half_away (of_int (sint (10 :: 64 word)) * (1/3)))) = 4"
    by code_simp
  from v n r Scale_rounding [OF v n] show ?thesis by simp
qed

text \<open>
  For a negative value the claim as stated fails.  \<open>roundUp\<close> divides with a quotient
  truncated toward zero, so the remainder of a negative number is negative and never
  reaches half the denominator: a negative number is rounded toward zero.  Half of
  \<open>-3\<close> becomes \<open>-1\<close>, not \<open>-2\<close>, and a third of \<open>-2\<close> becomes \<open>0\<close>, not \<open>-1\<close>.
\<close>

theorem Scale_rounding_negative_counterexample:
  "valid_segment \<lparr>es_from = 0, es_to = 1/2, es_length = 1/2\<rparr> \<and>
   sint (Scale (Some \<lparr>es_from = 0, es_to = 1/2, es_length = 1/2\<rparr>) (- 3)) = - 1 \<and>
   round_half_away (of_int (sint (- 3 :: 64 word)) * (1/2) -
     of_int (round_half_away (of_int (sint (- 3 :: 64 word)) * 0))) = - 2 \<and>
   valid_segment \<lparr>es_from = 0, es_to = 1/3, es_length = 1/3\<rparr> \<and>
   sint (Scale (Some \<lparr>es_from = 0, es_to = 1/3, es_length = 1/3\<rparr>) (- 2)) = 0 \<and>
   round_half_away (of_int (sint (- 2 :: 64 word)) * (1/3) -
     of_int (round_half_away (of_int (sint (- 2 :: 64 word)) * 0))) = - 1"
proof -
  have "valid_segment \<lparr>es_from = 0, es_to = 1/2, es_length = 1/2\<rparr>"
    and "valid_segment \<lparr>es_from = 0, es_to = 1/3, es_length = 1/3\<rparr>"
    by (simp_all add: valid_segment_def)
  moreover have
    "sint (Scale (Some \<lparr>es_from = 0, es_to = 1/2, es_length = 1/2\<rparr>) (- 3)) = - 1"
    by code_simp
  moreover have "round_half_away (of_int (sint (- 3 :: 64 word)) * (1/2) -
     of_int (round_half_away (of_int (sint (- 3 :: 64 word)) * 0))) = - 2"
    by code_simp
  moreover have
    "sint (Scale (Some \<lparr>es_from = 0, es_to = 1/3, es_length = 1/3\<rparr>) (- 2)) = 0"
    by code_simp
  moreover have "round_half_away (of_int (sint (- 2 :: 64 word)) * (1/3) -
     of_int (round_half_away (of_int (sint (- 2 :: 64 word)) * 0))) = - 1"
    by code_simp
  ultimately show ?thesis by simp
qed

text \<open>
  C1: for every value that is not negative and every list of valid segments that
  partitions \<open>(0, 1]\<close> (the first starts at 0, each ends where the next starts, the last
  ends at 1), the results of \<open>Scale\<close> over the list add up to the value.
\<close>

theorem Scale_conservation:
  assumes "0 \<le> sint v" and "full_partition ss"
  shows "(\<Sum>s\<leftarrow>ss. sint (Scale (Some s) v)) = sint v"
proof -
  have "(\<Sum>s\<leftarrow>ss. sint (Scale (Some s) v)) =
      \<lfloor>(of_int (sint v) :: rat) * 1 + 1 / 2\<rfloor> - \<lfloor>(of_int (sint v) :: rat) * 0 + 1 / 2\<rfloor>"
    using assms by (intro Scale_consecutive_sum) (simp_all add: full_partition_def)
  also have "\<lfloor>(of_int (sint v) :: rat) * 1 + 1 / 2\<rfloor> = sint v" by (simp add: floor_eq_iff)
  also have "\<lfloor>(of_int (sint v) :: rat) * 0 + 1 / 2\<rfloor> = 0" by (simp add: floor_eq_iff)
  finally show ?thesis by simp
qed

theorem Scale_conservation_witness:
  "0 \<le> sint (10 :: 64 word) \<and>
   full_partition [\<lparr>es_from = 0, es_to = 1/3, es_length = 1/3\<rparr>,
                   \<lparr>es_from = 1/3, es_to = 2/3, es_length = 1/3\<rparr>,
                   \<lparr>es_from = 2/3, es_to = 1, es_length = 1/3\<rparr>] \<and>
   map (\<lambda>s. sint (Scale (Some s) 10))
       [\<lparr>es_from = 0, es_to = 1/3, es_length = 1/3\<rparr>,
        \<lparr>es_from = 1/3, es_to = 2/3, es_length = 1/3\<rparr>,
        \<lparr>es_from = 2/3, es_to = 1, es_length = 1/3\<rparr>] = [3, 4, 3] \<and>
   (\<Sum>s\<leftarrow>[\<lparr>es_from = 0, es_to = 1/3, es_length = 1/3\<rparr>,
          \<lparr>es_from = 1/3, es_to = 2/3, es_length = 1/3\<rparr>,
          \<lparr>es_from = 2/3, es_to = 1, es_length = 1/3\<rparr>]. sint (Scale (Some s) 10)) =
     sint (10 :: 64 word)"
proof -
  have n: "0 \<le> sint (10 :: 64 word)" by simp
  have p: "full_partition [\<lparr>es_from = 0, es_to = 1/3, es_length = 1/3\<rparr>,
                   \<lparr>es_from = 1/3, es_to = 2/3, es_length = 1/3\<rparr>,
                   \<lparr>es_from = 2/3, es_to = 1, es_length = 1/3\<rparr>]"
    by (simp add: full_partition_def valid_segment_def)
  have m: "map (\<lambda>s. sint (Scale (Some s) 10))
       [\<lparr>es_from = 0, es_to = 1/3, es_length = 1/3\<rparr>,
        \<lparr>es_from = 1/3, es_to = 2/3, es_length = 1/3\<rparr>,
        \<lparr>es_from = 2/3, es_to = 1, es_length = 1/3\<rparr>] = [3, 4, 3]"
    by code_simp
  from n p m Scale_conservation [OF n p] show ?thesis by simp
qed

section \<open>Formatting and parsing\<close>

lemma digit_char_printed: "d < 10 \<Longrightarrow> digit_char d \<in> printed_chars"
proof -
  assume "d < 10"
  then have "''0123456789'' ! d \<in> set ''0123456789''" by (intro nth_mem) simp
  then show ?thesis by (auto simp: digit_char_def printed_chars_def)
qed

lemma nat_text_printed: "set (nat_text n) \<subseteq> printed_chars"
proof (induction n rule: nat_text.induct)
  case (1 n)
  show ?case
  proof (cases "n < 10")
    case True
    then show ?thesis
      using digit_char_printed [of n] by (subst nat_text.simps) simp
  next
    case False
    have "n mod 10 < 10" by simp
    then have "digit_char (n mod 10) \<in> printed_chars" by (rule digit_char_printed)
    then show ?thesis
      using False "1.IH" by (subst nat_text.simps) simp
  qed
qed

lemma IntString_printed: "set (IntString i) \<subseteq> printed_chars"
proof -
  have "CHR ''-'' \<in> printed_chars" by (simp add: printed_chars_def)
  then show ?thesis
    using nat_text_printed [of "nat (- i)"] nat_text_printed [of "nat i"]
    by (simp add: IntString_def)
qed

lemma RatString_printed: "set (RatString x) \<subseteq> printed_chars"
proof -
  obtain a b where ab: "quotient_of x = (a, b)" by (cases "quotient_of x")
  have "CHR ''/'' \<in> printed_chars" by (simp add: printed_chars_def)
  then show ?thesis
    using IntString_printed [of a] IntString_printed [of b]
    by (simp add: RatString_def ab)
qed

lemma RatString_no_colon: "CHR '':'' \<notin> set (RatString x)"
proof -
  have "CHR '':'' \<notin> printed_chars" by (simp add: printed_chars_def)
  then show ?thesis using RatString_printed [of x] by blast
qed

lemma RatString_no_percent: "\<not> HasSuffix (RatString x) ''%''"
proof
  assume "HasSuffix (RatString x) ''%''"
  then have "drop (length (RatString x) - 1) (RatString x) = ''%''"
    by (simp add: HasSuffix_def)
  then have "CHR ''%'' \<in> set (drop (length (RatString x) - 1) (RatString x))" by simp
  then have "CHR ''%'' \<in> set (RatString x)" by (rule in_set_dropD)
  moreover have "CHR ''%'' \<notin> printed_chars" by (simp add: printed_chars_def)
  ultimately show False using RatString_printed [of x] by blast
qed

lemma SplitN2_at_first:
  "sep \<notin> set a \<Longrightarrow> SplitN2 (a @ sep # b) sep = (a, b)"
  by (induction a) (auto simp: SplitN2_def)

lemma stringToRat_RatString:
  "ratSetString (RatString x) = Some x \<Longrightarrow>
     stringToRat intSetString ratSetString (RatString x) = Inr x"
  by (simp add: stringToRat_def RatString_no_percent)

lemma UnmarshalText_String:
  assumes "valid_segment s"
    and "ratSetString (RatString (es_from s)) = Some (es_from s)"
    and "ratSetString (RatString (es_to s)) = Some (es_to s)"
  shows "UnmarshalText intSetString ratSetString r (String (Some s)) = (s, None)"
proof -
  have str: "String (Some s) = RatString (es_from s) @ CHR '':'' # RatString (es_to s)"
    by (simp add: String_def)
  have halves: "SplitN2 (String (Some s)) CHR '':'' = (RatString (es_from s), RatString (es_to s))"
    unfolding str by (rule SplitN2_at_first) (rule RatString_no_colon)
  have colon: "ContainsRune (String (Some s)) CHR '':''"
    by (simp add: str ContainsRune_def)
  have new: "NewExecutionSegment (es_from s) (es_to s) = Inr s"
    using assms(1) by (simp add: NewExecutionSegment_def valid_segment_def)
  have "from": "stringToRat intSetString ratSetString (RatString (es_from s)) = Inr (es_from s)"
    using assms(2) by (rule stringToRat_RatString)
  have "to": "stringToRat intSetString ratSetString (RatString (es_to s)) = Inr (es_to s)"
    using assms(3) by (rule stringToRat_RatString)
  show ?thesis
    by (simp add: UnmarshalText_def colon halves Let_def new "from" "to")
qed

text \<open>
  C7, as amended: a valid segment is printed by \<open>String\<close> as \<open>from:to\<close>, both bounds in
  the notation of \<open>RatString\<close>, and \<open>MarshalText\<close> returns the same text.  For the
  absent segment \<open>String\<close> returns \<open>0:1\<close>, while \<open>MarshalText\<close> returns no text at all
  (a nil slice and a nil error).  Where \<open>big.Rat.SetString\<close> reads back what
  \<open>RatString\<close> printed for the two bounds, \<open>UnmarshalText\<close> of the printed text sets the
  receiver to the printed segment, so printing, parsing and printing again gives the
  first text, and the parsed segment is \<open>Equal\<close> to the printed one.
\<close>

theorem format_parse_round_trip:
  assumes "valid_segment s"
    and "ratSetString (RatString (es_from s)) = Some (es_from s)"
    and "ratSetString (RatString (es_to s)) = Some (es_to s)"
  shows "String (Some s) = RatString (es_from s) @ '':'' @ RatString (es_to s) \<and>
    String None = ''0:1'' \<and>
    MarshalText (Some s) = (Some (String (Some s)), None) \<and>
    MarshalText None = (None, None) \<and>
    UnmarshalText intSetString ratSetString r (String (Some s)) = (s, None) \<and>
    String (Some (fst (UnmarshalText intSetString ratSetString r (String (Some s))))) =
      String (Some s) \<and>
    Equal (Some (fst (UnmarshalText intSetString ratSetString r (String (Some s))))) (Some s)"
proof -
  have "UnmarshalText intSetString ratSetString r (String (Some s)) = (s, None)"
    using assms by (rule UnmarshalText_String)
  then show ?thesis
    by (simp add: String_def MarshalText_def Equal_def)
qed

theorem format_parse_round_trip_witness:
  "valid_segment \<lparr>es_from = 1/2, es_to = 3/4, es_length = 1/4\<rparr> \<and>
   fraction_rat (RatString (1/2)) = Some (1/2) \<and>
   fraction_rat (RatString (3/4)) = Some (3/4) \<and>
   String (Some \<lparr>es_from = 1/2, es_to = 3/4, es_length = 1/4\<rparr>) = ''1/2:3/4'' \<and>
   UnmarshalText decimal_int fraction_rat \<lparr>es_from = 0, es_to = 1, es_length = 1\<rparr>
     (String (Some \<lparr>es_from = 1/2, es_to = 3/4, es_length = 1/4\<rparr>)) =
     (\<lparr>es_from = 1/2, es_to = 3/4, es_length = 1/4\<rparr>, None)"
proof -
  have v: "valid_segment \<lparr>es_from = 1/2, es_to = 3/4, es_length = 1/4\<rparr>"
    by (simp add: valid_segment_def)
  have a: "fraction_rat (RatString (1/2)) = Some (1/2)" by code_simp
  have b: "fraction_rat (RatString (3/4)) = Some (3/4)" by code_simp
  have c: "String (Some \<lparr>es_from = 1/2, es_to = 3/4, es_length = 1/4\<rparr>) = ''1/2:3/4''"
    by code_simp
  have a': "fraction_rat (RatString (es_from \<lparr>es_from = 1/2, es_to = 3/4, es_length = 1/4\<rparr>))
      = Some (es_from \<lparr>es_from = 1/2, es_to = 3/4, es_length = 1/4\<rparr>)"
    using a by simp
  have b': "fraction_rat (RatString (es_to \<lparr>es_from = 1/2, es_to = 3/4, es_length = 1/4\<rparr>))
      = Some (es_to \<lparr>es_from = 1/2, es_to = 3/4, es_length = 1/4\<rparr>)"
    using b by simp
  from v a b c
    format_parse_round_trip [OF v a' b', of decimal_int
      "\<lparr>es_from = 0, es_to = 1, es_length = 1\<rparr>"]
  show ?thesis by blast
qed

text \<open>
  The claim as stated, that an absent segment formats as \<open>0:1\<close>, fails for
  \<open>MarshalText\<close>: its nil guard returns a nil slice.
\<close>

theorem MarshalText_absent_counterexample:
  "MarshalText None = (None, None) \<and> fst (MarshalText None) \<noteq> Some ''0:1''"
  by (simp add: MarshalText_def)

section \<open>The readers read what RatString prints\<close>

text \<open>
  \<open>decimal_int\<close> and \<open>fraction_rat\<close> read back every text that \<open>IntString\<close> and
  \<open>RatString\<close> print, so the hypotheses of the round trip can be met for every
  rational, and with these readers every valid segment is parsed back from its text.
\<close>

lemma digit_char_code:
  assumes "d < 10"
  shows "(of_char (digit_char d) :: nat) = 48 + d"
proof -
  from assms have "d = 0 \<or> d = 1 \<or> d = 2 \<or> d = 3 \<or> d = 4 \<or> d = 5 \<or> d = 6 \<or> d = 7 \<or> d = 8 \<or> d = 9"
    by arith
  then show ?thesis
    by (elim disjE) (simp_all add: digit_char_def)
qed

lemma read_digits_append:
  "read_digits (xs @ ys) acc =
     (case read_digits xs acc of None \<Rightarrow> None | Some a \<Rightarrow> read_digits ys a)"
  by (induction xs arbitrary: acc) (simp_all add: Let_def)

lemma read_digits_digit:
  "d < 10 \<Longrightarrow> read_digits [digit_char d] acc = Some (10 * acc + d)"
  by (simp add: digit_char_code Let_def)

lemma read_digits_nat_text: "read_digits (nat_text n) 0 = Some n"
proof (induction n rule: nat_text.induct)
  case (1 n)
  show ?case
  proof (cases "n < 10")
    case True
    then have "nat_text n = [digit_char n]" by (subst nat_text.simps) simp
    then show ?thesis
      using read_digits_digit [OF True, of 0] by (simp del: read_digits.simps)
  next
    case False
    have "read_digits (nat_text (n div 10) @ [digit_char (n mod 10)]) 0 =
        read_digits [digit_char (n mod 10)] (n div 10)"
      using "1.IH" [OF False] by (simp add: read_digits_append)
    also have "\<dots> = Some (10 * (n div 10) + n mod 10)"
      by (rule read_digits_digit) simp
    finally have "read_digits (nat_text (n div 10) @ [digit_char (n mod 10)]) 0 = Some n"
      by simp
    moreover have "nat_text n = nat_text (n div 10) @ [digit_char (n mod 10)]"
      using False by (subst nat_text.simps) simp
    ultimately show ?thesis by (simp del: read_digits.simps)
  qed
qed

lemma nat_text_nonempty: "nat_text n \<noteq> []"
  by (subst nat_text.simps) simp

lemma decimal_nat_nat_text: "decimal_nat (nat_text n) = Some n"
  by (simp add: decimal_nat_def nat_text_nonempty read_digits_nat_text)

lemma read_digits_Some_digits:
  "read_digits xs acc = Some r \<Longrightarrow> c \<in> set xs \<Longrightarrow> 48 \<le> (of_char c :: nat) \<and> (of_char c :: nat) \<le> 57"
  by (induction xs arbitrary: acc) (auto simp: Let_def split: if_splits)

lemma nat_text_digit_codes:
  "c \<in> set (nat_text n) \<Longrightarrow> 48 \<le> (of_char c :: nat) \<and> (of_char c :: nat) \<le> 57"
  using read_digits_nat_text by (rule read_digits_Some_digits)

lemma decimal_int_IntString: "decimal_int (IntString i) = Some i"
proof (cases "i < 0")
  case True
  then show ?thesis
    by (simp add: decimal_int_def IntString_def decimal_nat_nat_text)
next
  case False
  obtain c cs where cs: "nat_text (nat i) = c # cs"
    using nat_text_nonempty [of "nat i"] by (cases "nat_text (nat i)") auto
  then have "c \<in> set (nat_text (nat i))" by simp
  then have "48 \<le> (of_char c :: nat)" using nat_text_digit_codes by blast
  then have "c \<noteq> CHR ''-''" "c \<noteq> CHR ''+''" by auto
  then show ?thesis
    using False decimal_nat_nat_text [of "nat i"]
    by (simp add: decimal_int_def IntString_def cs)
qed

lemma IntString_no_slash: "CHR ''/'' \<notin> set (IntString i)"
proof
  assume a: "CHR ''/'' \<in> set (IntString i)"
  have "CHR ''/'' \<in> set (nat_text (nat (- i))) \<or> CHR ''/'' \<in> set (nat_text (nat i))"
    using a by (auto simp: IntString_def split: if_splits)
  then have "48 \<le> (of_char CHR ''/'' :: nat)"
    using nat_text_digit_codes by blast
  then show False by simp
qed

lemma fraction_rat_RatString: "fraction_rat (RatString x) = Some x"
proof -
  obtain a b where ab: "quotient_of x = (a, b)" by (cases "quotient_of x")
  have b: "0 < b" using ab by (rule quotient_of_denom_pos)
  have x: "x = of_int a / of_int b" using ab by (rule quotient_of_div)
  show ?thesis
  proof (cases "b = 1")
    case True
    then show ?thesis
      using x by (simp add: fraction_rat_def RatString_def ab ContainsRune_def
            IntString_no_slash decimal_int_IntString)
  next
    case False
    have str: "RatString x = IntString a @ CHR ''/'' # nat_text (nat b)"
      using False b by (simp add: RatString_def ab IntString_def)
    have halves: "SplitN2 (RatString x) CHR ''/'' = (IntString a, nat_text (nat b))"
      unfolding str by (rule SplitN2_at_first) (rule IntString_no_slash)
    have "Fract a b = x" by (simp add: x Fract_of_int_quotient)
    then show ?thesis
      using b by (simp add: fraction_rat_def ContainsRune_def halves decimal_int_IntString
            decimal_nat_nat_text) (simp add: str)
  qed
qed

lemma round_trip_with_readers:
  assumes "valid_segment s"
  shows "UnmarshalText decimal_int fraction_rat r (String (Some s)) = (s, None)"
  using assms fraction_rat_RatString fraction_rat_RatString by (rule UnmarshalText_String)

end
